theory Spec2Isabelle
  imports Main "HOL-Library.AList" "HOL-Library.Word"
begin

section \<open>The lock module of packages/core: leader lock and codebase locks\<close>

text \<open>
  The module \<^verbatim>\<open>packages/core/src/lock/index.ts\<close> keeps three module-level variables
  (\<^verbatim>\<open>isLeader\<close>, \<^verbatim>\<open>lockInterval\<close>, \<^verbatim>\<open>heldCodebaseLocks\<close>) and talks to the outside
  through \<^verbatim>\<open>proper-lockfile\<close>, \<^verbatim>\<open>fs\<close>, \<^verbatim>\<open>console\<close>, the interval timers and
  \<^verbatim>\<open>process.exit\<close>. The embedding passes the variables explicitly in a record and
  records every outside call, in program order, in a trace.

  The repository has a second, older variant of the module with the leader lock only; its
  \<^verbatim>\<open>acquireLock\<close> and \<^verbatim>\<open>releaseLock\<close> are the same as here. Creating the directories
  when the module is loaded plays no part in what follows and is left out.

  Each exported function is one atomic step: an \<^verbatim>\<open>await\<close> is sequential composition.
  The interleaving of two calls that are both suspended at an \<^verbatim>\<open>await\<close> is not part of
  this model. The one place where a suspended function is never resumed, the listener for
  the exit event, is modelled as such.
\<close>

subsection \<open>Outcomes, effects and the environment\<close>

text \<open>
  A call into a library either returns a value or throws (for a promise: resolves or
  rejects). A \<^verbatim>\<open>try\<close>/\<^verbatim>\<open>catch\<close> of the source is a case distinction on this type.
\<close>

datatype 'a result = Return 'a | Throw

datatype callback = AcquireLockCb

record timer =
  tid :: nat
  callback :: callback
  period_ms :: nat

datatype effect =
    Lock string "unit result"
  | Unlock string "unit result"
  | UnlockStarted string
  | CheckSync string "bool result"
  | ExistsSync string bool
  | ConsoleLog string
  | ConsoleError string
  | ProcessExit

text \<open>
  \<open>Unlock p r\<close> is a call of \<^verbatim>\<open>lockfile.unlock\<close> that was awaited and settled with
  \<open>r\<close>; \<open>UnlockStarted p\<close> is a call whose promise nobody waits for any more.
\<close>

text \<open>
  Everything the module imports is a parameter. The path functions and the digest are
  pure; \<^verbatim>\<open>createHash('md5')\<close> produces 128 bits. What a call to the lock library or to
  the file system answers may depend on everything that happened before, so these
  parameters take the trace so far: every finite run of outcomes is covered by some
  environment. \<^verbatim>\<open>lockfile.checkSync\<close> returns a boolean (whether the lock is held and
  not stale) or throws; \<^verbatim>\<open>fs.existsSync\<close> never throws.
\<close>

record env =
  homedir :: string
  path_join :: "string \<Rightarrow> string \<Rightarrow> string"
  path_resolve :: "string \<Rightarrow> string"
  md5 :: "string \<Rightarrow> 128 word"
  lockfile_lock :: "effect list \<Rightarrow> string \<Rightarrow> unit result"
  lockfile_unlock :: "effect list \<Rightarrow> string \<Rightarrow> unit result"
  lockfile_checkSync :: "effect list \<Rightarrow> string \<Rightarrow> bool result"
  fs_existsSync :: "effect list \<Rightarrow> string \<Rightarrow> bool"

text \<open>
  The module variables, the interval timers the runtime currently holds, and the trace.
  \<^verbatim>\<open>heldCodebaseLocks\<close> is a JavaScript \<^verbatim>\<open>Map\<close>: keys are unique and iterate in
  insertion order, so it is an association list with distinct keys (\<open>wf_state\<close> below).
\<close>

record state =
  isLeader :: bool
  lockInterval :: "nat option"
  heldCodebaseLocks :: "(string \<times> string) list"
  timers :: "timer list"
  next_tid :: nat
  trace :: "effect list"

definition initial_state :: state where
  "initial_state =
     \<lparr>isLeader = False, lockInterval = None, heldCodebaseLocks = [],
      timers = [], next_tid = 0, trace = []\<rparr>"

definition wf_state :: "state \<Rightarrow> bool" where
  "wf_state s = distinct (map fst (heldCodebaseLocks s))"

definition CONTEXT_DIR :: "env \<Rightarrow> string" where
  "CONTEXT_DIR env = path_join env (homedir env) ''.context''"

definition LOCK_FILE :: "env \<Rightarrow> string" where
  "LOCK_FILE env = path_join env (CONTEXT_DIR env) ''leader.lock''"

definition LOCKS_DIR :: "env \<Rightarrow> string" where
  "LOCKS_DIR env = path_join env (CONTEXT_DIR env) ''locks''"

subsection \<open>Outside calls\<close>

definition emit :: "effect \<Rightarrow> state \<Rightarrow> state" where
  "emit e s = s\<lparr>trace := trace s @ [e]\<rparr>"

definition call_lock :: "env \<Rightarrow> string \<Rightarrow> state \<Rightarrow> unit result \<times> state" where
  "call_lock env p s = (let r = lockfile_lock env (trace s) p in (r, emit (Lock p r) s))"

definition call_unlock :: "env \<Rightarrow> string \<Rightarrow> state \<Rightarrow> unit result \<times> state" where
  "call_unlock env p s = (let r = lockfile_unlock env (trace s) p in (r, emit (Unlock p r) s))"

definition call_checkSync :: "env \<Rightarrow> string \<Rightarrow> state \<Rightarrow> bool result \<times> state" where
  "call_checkSync env p s =
     (let r = lockfile_checkSync env (trace s) p in (r, emit (CheckSync p r) s))"

definition call_existsSync :: "env \<Rightarrow> string \<Rightarrow> state \<Rightarrow> bool \<times> state" where
  "call_existsSync env p s =
     (let r = fs_existsSync env (trace s) p in (r, emit (ExistsSync p r) s))"

definition console_log :: "string \<Rightarrow> state \<Rightarrow> state" where
  "console_log msg s = emit (ConsoleLog msg) s"

definition console_error :: "string \<Rightarrow> state \<Rightarrow> state" where
  "console_error msg s = emit (ConsoleError msg) s"

definition setInterval :: "callback \<Rightarrow> nat \<Rightarrow> state \<Rightarrow> nat \<times> state" where
  "setInterval cb ms s =
     (next_tid s,
      s\<lparr>timers := timers s @ [\<lparr>tid = next_tid s, callback = cb, period_ms = ms\<rparr>],
        next_tid := Suc (next_tid s)\<rparr>)"

definition clearInterval :: "nat \<Rightarrow> state \<Rightarrow> state" where
  "clearInterval t s = s\<lparr>timers := filter (\<lambda>x. tid x \<noteq> t) (timers s)\<rparr>"

subsection \<open>The leader lock\<close>

definition acquireLock :: "env \<Rightarrow> state \<Rightarrow> bool result \<times> state" where
  "acquireLock env s =
     (if isLeader s then (Return True, s)
      else
        case call_lock env (LOCK_FILE env) s of
          (Return u, s1) \<Rightarrow>
            let s2 = s1\<lparr>isLeader := True\<rparr>;
                s3 = console_log ''Acquired leader lock. This process is now the leader.'' s2;
                s4 = (case lockInterval s3 of
                        Some t \<Rightarrow> (clearInterval t s3)\<lparr>lockInterval := None\<rparr>
                      | None \<Rightarrow> s3)
            in (Return True, s4)
        | (Throw, s1) \<Rightarrow>
            let s2 = console_log ''Could not acquire leader lock, running as follower.'' s1;
                s3 = s2\<lparr>isLeader := False\<rparr>;
                s4 = (case lockInterval s3 of
                        None \<Rightarrow>
                          (case setInterval AcquireLockCb 5000 s3 of
                             (t, s') \<Rightarrow> s'\<lparr>lockInterval := Some t\<rparr>)
                      | Some t \<Rightarrow> s3)
            in (Return False, s4))"

definition releaseLock :: "env \<Rightarrow> state \<Rightarrow> unit result \<times> state" where
  "releaseLock env s =
     (if isLeader s then
        (case call_unlock env (LOCK_FILE env) s of
           (Return u, s1) \<Rightarrow>
             (Return (), console_log ''Released leader lock.'' (s1\<lparr>isLeader := False\<rparr>))
         | (Throw, s1) \<Rightarrow>
             (Return (), console_error ''Error releasing leader lock:'' s1))
      else (Return (), s))"

definition isCurrentProcessLeader :: "state \<Rightarrow> bool" where
  "isCurrentProcessLeader s = isLeader s"

definition getLockFilePath :: "env \<Rightarrow> string" where
  "getLockFilePath env = LOCK_FILE env"

subsection \<open>The codebase locks\<close>

text \<open>
  \<^verbatim>\<open>digest('hex')\<close> writes the 16 bytes of the digest as 32 lower-case hexadecimal
  digits, most significant first, leading zeros kept.
\<close>

definition hex_digit :: "nat \<Rightarrow> char" where
  "hex_digit n = ''0123456789abcdef'' ! (n mod 16)"

definition digest_hex :: "128 word \<Rightarrow> string" where
  "digest_hex w = map (\<lambda>i. hex_digit ((unat w div 16 ^ i) mod 16)) (rev [0..<32])"

definition getCodebaseLockPath :: "env \<Rightarrow> string \<Rightarrow> string" where
  "getCodebaseLockPath env codebasePath =
     (let normalizedPath = path_resolve env codebasePath;
          hash = digest_hex (md5 env normalizedPath)
      in path_join env (LOCKS_DIR env) hash)"

definition acquireCodebaseLock :: "env \<Rightarrow> string \<Rightarrow> state \<Rightarrow> bool result \<times> state" where
  "acquireCodebaseLock env codebasePath s =
     (if codebasePath \<in> set (map fst (heldCodebaseLocks s)) then (Return True, s)
      else
        let lockPath = getCodebaseLockPath env codebasePath in
        case call_lock env lockPath s of
          (Return u, s1) \<Rightarrow>
            (Return True,
             console_log (''[LOCK] Acquired codebase lock for: '' @ codebasePath)
               (s1\<lparr>heldCodebaseLocks :=
                      AList.update codebasePath lockPath (heldCodebaseLocks s1)\<rparr>))
        | (Throw, s1) \<Rightarrow>
            (Return False,
             console_log
               (''[LOCK] Codebase lock already held by another process: '' @ codebasePath) s1))"

text \<open>
  \<^verbatim>\<open>if (!lockPath)\<close> is taken for a missing key and for the empty string alike.
\<close>

definition releaseCodebaseLock :: "env \<Rightarrow> string \<Rightarrow> state \<Rightarrow> unit result \<times> state" where
  "releaseCodebaseLock env codebasePath s =
     (case map_of (heldCodebaseLocks s) codebasePath of
        None \<Rightarrow> (Return (), s)
      | Some lockPath \<Rightarrow>
          if lockPath = [] then (Return (), s)
          else
            case call_unlock env lockPath s of
              (Return u, s1) \<Rightarrow>
                (Return (),
                 console_log (''[LOCK] Released codebase lock for: '' @ codebasePath)
                   (s1\<lparr>heldCodebaseLocks := AList.delete codebasePath (heldCodebaseLocks s1)\<rparr>))
            | (Throw, s1) \<Rightarrow>
                (Return (),
                 console_error
                   (''[LOCK] Error releasing codebase lock for '' @ codebasePath @ '':'') s1))"

text \<open>The \<^verbatim>\<open>for\<close> loop of \<^verbatim>\<open>releaseAllCodebaseLocks\<close> over the snapshot of the keys.\<close>

fun release_each :: "env \<Rightarrow> string list \<Rightarrow> state \<Rightarrow> unit result \<times> state" where
  "release_each env [] s = (Return (), s)"
| "release_each env (codebasePath # rest) s =
     (case releaseCodebaseLock env codebasePath s of
        (Return u, s1) \<Rightarrow> release_each env rest s1
      | (Throw, s1) \<Rightarrow> (Throw, s1))"

definition releaseAllCodebaseLocks :: "env \<Rightarrow> state \<Rightarrow> unit result \<times> state" where
  "releaseAllCodebaseLocks env s =
     (let lockPaths = map fst (heldCodebaseLocks s) in release_each env lockPaths s)"

definition isCodebaseLocked :: "env \<Rightarrow> string \<Rightarrow> state \<Rightarrow> bool result \<times> state" where
  "isCodebaseLocked env codebasePath s =
     (let lockPath = getCodebaseLockPath env codebasePath;
          lockFilePath = lockPath @ ''.lock''
      in case call_existsSync env lockFilePath s of
           (ex, s1) \<Rightarrow>
             if \<not> ex then (Return False, s1)
             else
               case call_checkSync env lockPath s1 of
                 (Return held, s2) \<Rightarrow> (Return True, s2)
               | (Throw, s2) \<Rightarrow> (Return False, s2))"

subsection \<open>Graceful shutdown\<close>

text \<open>
  The listener for the exit event is an \<^verbatim>\<open>async\<close> function. Node calls the listeners
  of this event synchronously and ends the process when they have returned, so the
  listener runs up to its first \<^verbatim>\<open>await\<close> and is never resumed. That is
  \<^verbatim>\<open>await releaseAllCodebaseLocks()\<close>; the callee in turn runs up to its first
  \<^verbatim>\<open>await\<close>, on \<^verbatim>\<open>releaseCodebaseLock\<close> for the first key of the snapshot; and that
  one runs up to \<^verbatim>\<open>await lockfile.unlock(...)\<close>, or returns at once when it finds no
  lock path. Whatever stands after these three \<^verbatim>\<open>await\<close>s is not executed: the other
  keys, the \<^verbatim>\<open>delete\<close>, the console output, and \<^verbatim>\<open>await releaseLock()\<close>.
\<close>

definition releaseCodebaseLock_until_await :: "string \<Rightarrow> state \<Rightarrow> state" where
  "releaseCodebaseLock_until_await codebasePath s =
     (case map_of (heldCodebaseLocks s) codebasePath of
        None \<Rightarrow> s
      | Some lockPath \<Rightarrow>
          if lockPath = [] then s else emit (UnlockStarted lockPath) s)"

definition releaseAllCodebaseLocks_until_await :: "state \<Rightarrow> state" where
  "releaseAllCodebaseLocks_until_await s =
     (let lockPaths = map fst (heldCodebaseLocks s) in
      case lockPaths of
        [] \<Rightarrow> s
      | codebasePath # rest \<Rightarrow> releaseCodebaseLock_until_await codebasePath s)"

definition on_exit :: "state \<Rightarrow> state" where
  "on_exit s = releaseAllCodebaseLocks_until_await s"

text \<open>
  \<^verbatim>\<open>process.exit()\<close> emits the exit event, which runs the listener above, and ends the
  process. The listeners for the two signals are \<^verbatim>\<open>async\<close> as well, but the process
  lives on while they are suspended, so they run to their end.
\<close>

definition process_exit :: "state \<Rightarrow> state" where
  "process_exit s = on_exit (emit ProcessExit s)"

definition on_SIGINT :: "env \<Rightarrow> state \<Rightarrow> unit result \<times> state" where
  "on_SIGINT env s =
     (case releaseAllCodebaseLocks env s of
        (Return u, s1) \<Rightarrow>
          (case releaseLock env s1 of
             (Return v, s2) \<Rightarrow> (Return (), process_exit s2)
           | (Throw, s2) \<Rightarrow> (Throw, s2))
      | (Throw, s1) \<Rightarrow> (Throw, s1))"

definition on_SIGTERM :: "env \<Rightarrow> state \<Rightarrow> unit result \<times> state" where
  "on_SIGTERM env s =
     (case releaseAllCodebaseLocks env s of
        (Return u, s1) \<Rightarrow>
          (case releaseLock env s1 of
             (Return v, s2) \<Rightarrow> (Return (), process_exit s2)
           | (Throw, s2) \<Rightarrow> (Throw, s2))
      | (Throw, s1) \<Rightarrow> (Throw, s1))"

subsection \<open>Runs of the module\<close>

text \<open>
  What can happen to the module from the outside: a caller invokes an exported function,
  or the runtime fires an interval timer that is still registered, which runs its callback.
\<close>

datatype op =
    AcquireLock
  | ReleaseLock
  | TimerFires nat
  | AcquireCodebaseLock string
  | ReleaseCodebaseLock string
  | ReleaseAllCodebaseLocks
  | IsCodebaseLocked string

fun run_callback :: "env \<Rightarrow> callback \<Rightarrow> state \<Rightarrow> state" where
  "run_callback env AcquireLockCb s = snd (acquireLock env s)"

fun exec :: "env \<Rightarrow> op \<Rightarrow> state \<Rightarrow> state" where
  "exec env AcquireLock s = snd (acquireLock env s)"
| "exec env ReleaseLock s = snd (releaseLock env s)"
| "exec env (TimerFires t) s =
     (case find (\<lambda>x. tid x = t) (timers s) of
        None \<Rightarrow> s
      | Some x \<Rightarrow> run_callback env (callback x) s)"
| "exec env (AcquireCodebaseLock p) s = snd (acquireCodebaseLock env p s)"
| "exec env (ReleaseCodebaseLock p) s = snd (releaseCodebaseLock env p s)"
| "exec env ReleaseAllCodebaseLocks s = snd (releaseAllCodebaseLocks env s)"
| "exec env (IsCodebaseLocked p) s = snd (isCodebaseLocked env p s)"

definition run :: "env \<Rightarrow> op list \<Rightarrow> state \<Rightarrow> state" where
  "run env ops s = fold (exec env) ops s"

fun leader_op :: "op \<Rightarrow> bool" where
  "leader_op AcquireLock = True"
| "leader_op ReleaseLock = True"
| "leader_op (TimerFires t) = True"
| "leader_op other = False"

fun codebase_op :: "op \<Rightarrow> bool" where
  "codebase_op (AcquireCodebaseLock p) = True"
| "codebase_op (ReleaseCodebaseLock p) = True"
| "codebase_op ReleaseAllCodebaseLocks = True"
| "codebase_op other = False"

subsection \<open>Reading a trace\<close>

text \<open>
  The outcomes of the attempts on the leader lock file, oldest first, and the paths
  handed to \<^verbatim>\<open>lockfile.unlock\<close>, oldest first.
\<close>

fun attempt_of :: "env \<Rightarrow> effect \<Rightarrow> unit result list" where
  "attempt_of env (Lock p r) = (if p = LOCK_FILE env then [r] else [])"
| "attempt_of env e = []"

definition attempts :: "env \<Rightarrow> effect list \<Rightarrow> unit result list" where
  "attempts env tr = concat (map (attempt_of env) tr)"

definition some_attempt_failed :: "env \<Rightarrow> state \<Rightarrow> bool" where
  "some_attempt_failed env s = (Throw \<in> set (attempts env (trace s)))"

definition last_attempt_failed :: "env \<Rightarrow> state \<Rightarrow> bool" where
  "last_attempt_failed env s =
     (case rev (attempts env (trace s)) of [] \<Rightarrow> False | r # earlier \<Rightarrow> r = Throw)"

fun unlock_of :: "effect \<Rightarrow> string list" where
  "unlock_of (Unlock p r) = [p]"
| "unlock_of (UnlockStarted p) = [p]"
| "unlock_of e = []"

definition unlocked_paths :: "effect list \<Rightarrow> string list" where
  "unlocked_paths tr = concat (map unlock_of tr)"

text \<open>The unlock call that \<^verbatim>\<open>releaseCodebaseLock\<close> makes for a key, if any.\<close>

definition unlock_attempt :: "(string \<times> string) list \<Rightarrow> string \<Rightarrow> string list" where
  "unlock_attempt al k =
     (case map_of al k of None \<Rightarrow> [] | Some p \<Rightarrow> if p = [] then [] else [p])"

text \<open>What a step added to the trace.\<close>

definition added :: "state \<Rightarrow> state \<Rightarrow> effect list" where
  "added s s' = drop (length (trace s)) (trace s')"

subsection \<open>Example environments\<close>

text \<open>
  A POSIX-like instance of the pure parameters, with a stand-in for the digest, and a few
  behaviours of the lock library: every lock free; every lock held by another process;
  unlocking fails; the lock is taken at first and free at the second attempt; a lock
  file that is present but stale.
\<close>

definition posix_join :: "string \<Rightarrow> string \<Rightarrow> string" where
  "posix_join a b = a @ ''/'' @ b"

definition resolve_from :: "string \<Rightarrow> string \<Rightarrow> string" where
  "resolve_from cwd p = (if take 1 p = ''/'' then p else posix_join cwd p)"

definition length_digest :: "string \<Rightarrow> 128 word" where
  "length_digest p = of_nat (length p)"

definition sample_env ::
  "(effect list \<Rightarrow> string \<Rightarrow> unit result) \<Rightarrow> (effect list \<Rightarrow> string \<Rightarrow> unit result) \<Rightarrow>
   (effect list \<Rightarrow> string \<Rightarrow> bool result) \<Rightarrow> (effect list \<Rightarrow> string \<Rightarrow> bool) \<Rightarrow> env" where
  "sample_env lk ul ck ex =
     \<lparr>homedir = ''/home/dev'', path_join = posix_join, path_resolve = resolve_from ''/work'',
      md5 = length_digest, lockfile_lock = lk, lockfile_unlock = ul,
      lockfile_checkSync = ck, fs_existsSync = ex\<rparr>"

definition free_env :: env where
  "free_env =
     sample_env (\<lambda>h p. Return ()) (\<lambda>h p. Return ()) (\<lambda>h p. Return True) (\<lambda>h p. True)"

definition contended_env :: env where
  "contended_env =
     sample_env (\<lambda>h p. Throw) (\<lambda>h p. Return ()) (\<lambda>h p. Return True) (\<lambda>h p. True)"

definition unlock_fails_env :: env where
  "unlock_fails_env =
     sample_env (\<lambda>h p. Return ()) (\<lambda>h p. Throw) (\<lambda>h p. Return True) (\<lambda>h p. True)"

definition second_try_env :: env where
  "second_try_env =
     sample_env (\<lambda>h p. if Lock p Throw \<in> set h then Return () else Throw)
       (\<lambda>h p. Return ()) (\<lambda>h p. Return True) (\<lambda>h p. True)"

definition stale_env :: env where
  "stale_env =
     sample_env (\<lambda>h p. Throw) (\<lambda>h p. Return ()) (\<lambda>h p. Return False) (\<lambda>h p. True)"

text \<open>A process that is leader and holds the locks of two codebases.\<close>

definition leader_with_two_locks :: state where
  "leader_with_two_locks =
     run free_env
       [AcquireLock, AcquireCodebaseLock ''/repo'', AcquireCodebaseLock ''/lib'']
       initial_state"

subsection \<open>Invariants of runs\<close>

text \<open>
  The timer handle is set exactly while the latest attempt on the leader lock is a failed
  one, and then the process is not leader.
\<close>

definition leader_inv :: "env \<Rightarrow> state \<Rightarrow> bool" where
  "leader_inv env s =
     ((lockInterval s \<noteq> None \<longleftrightarrow> last_attempt_failed env s) \<and>
      (last_attempt_failed env s \<longrightarrow> \<not> isLeader s))"

text \<open>
  The runtime holds no timer while the handle is unset, and otherwise exactly the one the
  handle names, which calls \<^verbatim>\<open>acquireLock\<close> every 5000 ms.
\<close>

definition timer_inv :: "state \<Rightarrow> bool" where
  "timer_inv s =
     (case lockInterval s of
        None \<Rightarrow> timers s = []
      | Some t \<Rightarrow> timers s = [\<lparr>tid = t, callback = AcquireLockCb, period_ms = 5000\<rparr>])"

text \<open>Every held entry stores the lock path computed from its key.\<close>

definition paths_inv :: "env \<Rightarrow> state \<Rightarrow> bool" where
  "paths_inv env s =
     list_all (\<lambda>(codebasePath, lockPath). lockPath = getCodebaseLockPath env codebasePath)
       (heldCodebaseLocks s)"

section \<open>Properties\<close>

lemmas outside_defs =
  emit_def call_lock_def call_unlock_def call_checkSync_def call_existsSync_def
  console_log_def console_error_def setInterval_def clearInterval_def Let_def

lemmas exit_defs =
  process_exit_def on_exit_def releaseAllCodebaseLocks_until_await_def
  releaseCodebaseLock_until_await_def

lemmas path_defs = CONTEXT_DIR_def LOCK_FILE_def LOCKS_DIR_def getCodebaseLockPath_def

lemmas sample_defs =
  sample_env_def free_env_def contended_env_def unlock_fails_env_def second_try_env_def
  stale_env_def posix_join_def resolve_from_def initial_state_def run_def

subsection \<open>The leader lock\<close>

text \<open>
  C4. When the process is already leader, \<^verbatim>\<open>acquireLock\<close> returns true and leaves the
  whole state as it was: the flag, the timer handle, the held locks, the registered timers
  and the trace, so that no call went to the lock library (nor anywhere else).
\<close>

theorem acquireLock_already_leader:
  assumes "isLeader s"
  shows "acquireLock env s = (Return True, s)"
  using assms by (simp add: acquireLock_def)

theorem acquireLock_already_leader_witness:
  "isLeader (run free_env [AcquireLock] initial_state) \<and>
   acquireLock free_env (run free_env [AcquireLock] initial_state) =
     (Return True, run free_env [AcquireLock] initial_state)"
proof -
  have leader: "isLeader (run free_env [AcquireLock] initial_state)"
    by (simp add: sample_defs acquireLock_def outside_defs)
  from acquireLock_already_leader [OF leader, of free_env] leader show ?thesis
    by simp
qed

text \<open>
  C1, as stated, fails: when \<^verbatim>\<open>lockfile.unlock\<close> rejects, the \<^verbatim>\<open>catch\<close> block only
  prints, and \<^verbatim>\<open>isLeader\<close> stays true. Here the process becomes leader and then
  releases while unlocking fails.
\<close>

theorem releaseLock_unlock_failure_keeps_leader:
  "isLeader (run unlock_fails_env [AcquireLock] initial_state) \<and>
   isLeader (snd (releaseLock unlock_fails_env (run unlock_fails_env [AcquireLock] initial_state)))"
  by (simp add: sample_defs acquireLock_def releaseLock_def outside_defs)

text \<open>
  C1, amended. A call of \<^verbatim>\<open>releaseLock\<close> made while the process is leader returns
  normally, and afterwards the leader flag is false exactly when the unlock call
  succeeded. When the unlock call fails, the failure is reported on the console and
  nothing else changes: the flag stays true.
\<close>

theorem releaseLock_clears_flag_iff_unlocked:
  assumes "isLeader s"
  shows "fst (releaseLock env s) = Return () \<and>
         (isLeader (snd (releaseLock env s)) \<longleftrightarrow>
            lockfile_unlock env (trace s) (LOCK_FILE env) = Throw) \<and>
         (lockfile_unlock env (trace s) (LOCK_FILE env) = Throw \<longrightarrow>
            snd (releaseLock env s) =
              s\<lparr>trace := trace s @ [Unlock (LOCK_FILE env) Throw,
                                     ConsoleError ''Error releasing leader lock:'']\<rparr>)"
proof (cases "lockfile_unlock env (trace s) (LOCK_FILE env)")
  case (Return u)
  with assms show ?thesis
    by (simp add: releaseLock_def outside_defs)
next
  case Throw
  with assms show ?thesis
    by (simp add: releaseLock_def outside_defs)
qed

theorem releaseLock_clears_flag_iff_unlocked_witness:
  "isLeader (run free_env [AcquireLock] initial_state) \<and>
   lockfile_unlock free_env (trace (run free_env [AcquireLock] initial_state))
     (LOCK_FILE free_env) = Return () \<and>
   fst (releaseLock free_env (run free_env [AcquireLock] initial_state)) = Return () \<and>
   \<not> isLeader (snd (releaseLock free_env (run free_env [AcquireLock] initial_state)))"
proof -
  have leader: "isLeader (run free_env [AcquireLock] initial_state)"
    by (simp add: sample_defs acquireLock_def outside_defs)
  have ok: "lockfile_unlock free_env (trace (run free_env [AcquireLock] initial_state))
              (LOCK_FILE free_env) = Return ()"
    by (simp add: sample_defs)
  from releaseLock_clears_flag_iff_unlocked [OF leader, of free_env] leader ok
  show ?thesis by simp
qed

text \<open>
  The invariant behind C3: every step of the leader lock keeps \<open>leader_inv\<close>.
\<close>

lemma attempts_append: "attempts env (a @ b) = attempts env a @ attempts env b"
  by (simp add: attempts_def)

lemma acquireLock_leader_inv:
  assumes "leader_inv env s"
  shows "leader_inv env (snd (acquireLock env s))"
proof (cases "isLeader s")
  case True
  with assms show ?thesis by (simp add: acquireLock_def)
next
  case False
  show ?thesis
  proof (cases "lockfile_lock env (trace s) (LOCK_FILE env)")
    case (Return u)
    with False show ?thesis
      by (simp add: acquireLock_def outside_defs leader_inv_def last_attempt_failed_def
          attempts_append attempts_def split: option.splits)
  next
    case Throw
    with False show ?thesis
      by (simp add: acquireLock_def outside_defs leader_inv_def last_attempt_failed_def
          attempts_append attempts_def split: option.splits)
  qed
qed

lemma releaseLock_leader_inv:
  assumes "leader_inv env s"
  shows "leader_inv env (snd (releaseLock env s))"
proof (cases "isLeader s")
  case False
  with assms show ?thesis by (simp add: releaseLock_def)
next
  case True
  with assms show ?thesis
    by (cases "lockfile_unlock env (trace s) (LOCK_FILE env)")
       (auto simp add: releaseLock_def outside_defs leader_inv_def last_attempt_failed_def
          attempts_def split: list.splits)
qed

lemma run_callback_leader_inv:
  assumes "leader_inv env s"
  shows "leader_inv env (run_callback env cb s)"
  using assms by (cases cb) (simp add: acquireLock_leader_inv)

lemma exec_leader_inv:
  assumes "leader_op x" and "leader_inv env s"
  shows "leader_inv env (exec env x s)"
  using assms
  by (cases x) (auto simp add: acquireLock_leader_inv releaseLock_leader_inv
       run_callback_leader_inv split: option.splits)

lemma run_leader_inv:
  assumes "list_all leader_op ops" and "leader_inv env s"
  shows "leader_inv env (run env ops s)"
  using assms unfolding run_def
  by (induction ops arbitrary: s) (simp_all add: exec_leader_inv)

lemma initial_leader_inv: "leader_inv env initial_state"
  by (simp add: leader_inv_def last_attempt_failed_def attempts_def initial_state_def)

lemma last_failed_some_failed:
  "last_attempt_failed env s \<Longrightarrow> some_attempt_failed env s"
  by (auto simp add: last_attempt_failed_def some_attempt_failed_def split: list.splits
      dest: arg_cong [where f = set])


text \<open>
  C3, as stated, fails in the direction from right to left. The first attempt fails and
  schedules the timer; the timer fires and the second attempt succeeds, which clears the
  timer; the leader lock is released. Now the process is not leader, an attempt has
  failed, and no timer is scheduled.
\<close>

theorem no_retry_timer_after_release:
  "lockInterval (run second_try_env [AcquireLock, TimerFires 0, ReleaseLock] initial_state) = None \<and>
   \<not> isLeader (run second_try_env [AcquireLock, TimerFires 0, ReleaseLock] initial_state) \<and>
   some_attempt_failed second_try_env
     (run second_try_env [AcquireLock, TimerFires 0, ReleaseLock] initial_state)"
  by (simp add: sample_defs acquireLock_def releaseLock_def outside_defs path_defs
      some_attempt_failed_def attempts_def)

text \<open>
  C3, amended. In every state reached from the initial state by \<^verbatim>\<open>acquireLock\<close>,
  \<^verbatim>\<open>releaseLock\<close> and timer firings, the retry timer handle is set if and only if the
  leader flag is false and the most recent attempt on the leader lock failed. In
  particular a set handle implies that some attempt has failed.
\<close>

theorem retry_timer_iff_last_attempt_failed:
  assumes "list_all leader_op ops"
  shows "(lockInterval (run env ops initial_state) \<noteq> None \<longleftrightarrow>
            \<not> isLeader (run env ops initial_state) \<and>
            last_attempt_failed env (run env ops initial_state)) \<and>
         (lockInterval (run env ops initial_state) \<noteq> None \<longrightarrow>
            some_attempt_failed env (run env ops initial_state))"
proof -
  have "leader_inv env (run env ops initial_state)"
    using assms by (rule run_leader_inv) (rule initial_leader_inv)
  then show ?thesis
    using last_failed_some_failed [of env "run env ops initial_state"]
    by (auto simp add: leader_inv_def)
qed

theorem retry_timer_iff_last_attempt_failed_witness:
  "list_all leader_op [AcquireLock, TimerFires 0] \<and>
   lockInterval (run contended_env [AcquireLock, TimerFires 0] initial_state) \<noteq> None \<and>
   \<not> isLeader (run contended_env [AcquireLock, TimerFires 0] initial_state) \<and>
   last_attempt_failed contended_env (run contended_env [AcquireLock, TimerFires 0] initial_state) \<and>
   some_attempt_failed contended_env (run contended_env [AcquireLock, TimerFires 0] initial_state)"
proof -
  have ops: "list_all leader_op [AcquireLock, TimerFires 0]"
    by simp
  have timer: "lockInterval (run contended_env [AcquireLock, TimerFires 0] initial_state) \<noteq> None"
    by (simp add: sample_defs acquireLock_def outside_defs)
  from retry_timer_iff_last_attempt_failed [OF ops, of contended_env] ops timer
  show ?thesis by simp
qed

text \<open>
  Steps on the codebase locks leave the leader flag, the timer handle and the timers
  alone, and every step keeps \<open>timer_inv\<close>: the runtime holds at most one timer, the one
  the handle names.
\<close>

lemma acquireCodebaseLock_frame:
  "isLeader (snd (acquireCodebaseLock env p s)) = isLeader s \<and>
   lockInterval (snd (acquireCodebaseLock env p s)) = lockInterval s \<and>
   timers (snd (acquireCodebaseLock env p s)) = timers s"
  by (cases "lockfile_lock env (trace s) (getCodebaseLockPath env p)")
     (simp_all add: acquireCodebaseLock_def outside_defs)

lemma releaseCodebaseLock_frame:
  "isLeader (snd (releaseCodebaseLock env p s)) = isLeader s \<and>
   lockInterval (snd (releaseCodebaseLock env p s)) = lockInterval s \<and>
   timers (snd (releaseCodebaseLock env p s)) = timers s"
  by (simp add: releaseCodebaseLock_def outside_defs split: option.splits result.splits)

lemma releaseCodebaseLock_returns:
  "fst (releaseCodebaseLock env p s) = Return ()"
  by (simp add: releaseCodebaseLock_def outside_defs split: option.splits result.splits)

lemma release_each_frame:
  "isLeader (snd (release_each env ks s)) = isLeader s \<and>
   lockInterval (snd (release_each env ks s)) = lockInterval s \<and>
   timers (snd (release_each env ks s)) = timers s"
proof (induction ks arbitrary: s)
  case Nil
  show ?case by simp
next
  case (Cons k ks)
  obtain s1 where r: "releaseCodebaseLock env k s = (Return (), s1)"
    using releaseCodebaseLock_returns [of env k s] by (cases "releaseCodebaseLock env k s") simp
  from releaseCodebaseLock_frame [of env k s] r Cons.IH [of s1] show ?case
    by simp
qed

lemma isCodebaseLocked_frame:
  "isLeader (snd (isCodebaseLocked env p s)) = isLeader s \<and>
   lockInterval (snd (isCodebaseLocked env p s)) = lockInterval s \<and>
   timers (snd (isCodebaseLocked env p s)) = timers s \<and>
   heldCodebaseLocks (snd (isCodebaseLocked env p s)) = heldCodebaseLocks s"
  by (simp add: isCodebaseLocked_def outside_defs split: result.splits)

lemma acquireLock_timer_inv:
  assumes "timer_inv s"
  shows "timer_inv (snd (acquireLock env s))"
proof (cases "isLeader s")
  case True
  with assms show ?thesis by (simp add: acquireLock_def)
next
  case False
  with assms show ?thesis
    by (cases "lockfile_lock env (trace s) (LOCK_FILE env)")
       (auto simp add: acquireLock_def outside_defs timer_inv_def split: option.splits)
qed

lemma releaseLock_timer_inv:
  assumes "timer_inv s"
  shows "timer_inv (snd (releaseLock env s))"
  using assms
  by (cases "lockfile_unlock env (trace s) (LOCK_FILE env)")
     (auto simp add: releaseLock_def outside_defs timer_inv_def split: option.splits)

lemma timer_inv_cong:
  assumes "timer_inv s" and "lockInterval s' = lockInterval s" and "timers s' = timers s"
  shows "timer_inv s'"
  using assms by (simp add: timer_inv_def split: option.splits)

lemma exec_timer_inv:
  assumes "timer_inv s"
  shows "timer_inv (exec env x s)"
proof (cases x)
  case AcquireLock
  with assms show ?thesis by (simp add: acquireLock_timer_inv)
next
  case ReleaseLock
  with assms show ?thesis by (simp add: releaseLock_timer_inv)
next
  case (TimerFires t)
  show ?thesis
  proof (cases "find (\<lambda>x. tid x = t) (timers s)")
    case None
    with TimerFires assms show ?thesis by simp
  next
    case (Some x)
    with TimerFires assms show ?thesis
      by (cases "callback x") (simp add: acquireLock_timer_inv)
  qed
next
  case (AcquireCodebaseLock p)
  with assms acquireCodebaseLock_frame [of env p s] show ?thesis
    by (simp add: timer_inv_cong)
next
  case (ReleaseCodebaseLock p)
  with assms releaseCodebaseLock_frame [of env p s] show ?thesis
    by (simp add: timer_inv_cong)
next
  case ReleaseAllCodebaseLocks
  with assms release_each_frame [of env "map fst (heldCodebaseLocks s)" s] show ?thesis
    by (simp add: timer_inv_cong releaseAllCodebaseLocks_def)
next
  case (IsCodebaseLocked p)
  with assms isCodebaseLocked_frame [of env p s] show ?thesis
    by (simp add: timer_inv_cong)
qed

lemma run_timer_inv:
  assumes "timer_inv s"
  shows "timer_inv (run env ops s)"
  using assms unfolding run_def
  by (induction ops arbitrary: s) (simp_all add: exec_timer_inv)

lemma initial_timer_inv: "timer_inv initial_state"
  by (simp add: timer_inv_def initial_state_def)

lemma timer_inv_at_most_one: "timer_inv s \<Longrightarrow> length (timers s) \<le> 1"
  by (simp add: timer_inv_def split: option.splits)


text \<open>
  C5. When the process is not leader and the attempt on the leader lock fails,
  \<^verbatim>\<open>acquireLock\<close> returns false (it does not throw), the leader flag is false
  afterwards, and a timer that calls \<^verbatim>\<open>acquireLock\<close> every 5000 ms is registered
  exactly when no handle was stored; with a stored handle the timers are untouched. In a
  state reached from the initial one, at most one timer exists afterwards.
\<close>

theorem acquireLock_failure_schedules_retry:
  assumes "\<not> isLeader s" and "lockfile_lock env (trace s) (LOCK_FILE env) = Throw"
  shows "fst (acquireLock env s) = Return False \<and>
         \<not> isLeader (snd (acquireLock env s)) \<and>
         (lockInterval s = None \<longrightarrow>
            timers (snd (acquireLock env s)) =
              timers s @ [\<lparr>tid = next_tid s, callback = AcquireLockCb, period_ms = 5000\<rparr>] \<and>
            lockInterval (snd (acquireLock env s)) = Some (next_tid s)) \<and>
         (lockInterval s \<noteq> None \<longrightarrow>
            timers (snd (acquireLock env s)) = timers s \<and>
            lockInterval (snd (acquireLock env s)) = lockInterval s) \<and>
         (\<forall>ops. s = run env ops initial_state \<longrightarrow>
            length (timers (snd (acquireLock env s))) \<le> 1)"
proof -
  have one: "length (timers (snd (acquireLock env (run env ops initial_state)))) \<le> 1" for ops
    by (intro timer_inv_at_most_one acquireLock_timer_inv run_timer_inv initial_timer_inv)
  from assms have step:
    "fst (acquireLock env s) = Return False \<and>
     \<not> isLeader (snd (acquireLock env s)) \<and>
     (lockInterval s = None \<longrightarrow>
        timers (snd (acquireLock env s)) =
          timers s @ [\<lparr>tid = next_tid s, callback = AcquireLockCb, period_ms = 5000\<rparr>] \<and>
        lockInterval (snd (acquireLock env s)) = Some (next_tid s)) \<and>
     (lockInterval s \<noteq> None \<longrightarrow>
        timers (snd (acquireLock env s)) = timers s \<and>
        lockInterval (snd (acquireLock env s)) = lockInterval s)"
    by (auto simp add: acquireLock_def outside_defs split: option.splits)
  from step one show ?thesis by blast
qed


theorem acquireLock_failure_schedules_retry_witness:
  "\<not> isLeader initial_state \<and>
   lockfile_lock contended_env (trace initial_state) (LOCK_FILE contended_env) = Throw \<and>
   lockInterval initial_state = None \<and>
   initial_state = run contended_env [] initial_state \<and>
   fst (acquireLock contended_env initial_state) = Return False \<and>
   \<not> isLeader (snd (acquireLock contended_env initial_state)) \<and>
   timers (snd (acquireLock contended_env initial_state)) =
     timers initial_state @
       [\<lparr>tid = next_tid initial_state, callback = AcquireLockCb, period_ms = 5000\<rparr>] \<and>
   lockInterval (snd (acquireLock contended_env initial_state)) = Some (next_tid initial_state) \<and>
   length (timers (snd (acquireLock contended_env initial_state))) \<le> 1"
proof -
  have follower: "\<not> isLeader initial_state"
    by (simp add: initial_state_def)
  have fails: "lockfile_lock contended_env (trace initial_state) (LOCK_FILE contended_env) = Throw"
    by (simp add: sample_defs)
  have none: "lockInterval initial_state = None"
    by (simp add: initial_state_def)
  have reached: "initial_state = run contended_env [] initial_state"
    by (simp add: run_def)
  from acquireLock_failure_schedules_retry [OF follower fails] none reached follower fails
  show ?thesis by blast
qed

subsection \<open>The codebase locks\<close>

text \<open>
  C2, as stated, fails: \<^verbatim>\<open>heldCodebaseLocks.delete\<close> sits in the \<^verbatim>\<open>try\<close> block after
  the awaited unlock, so a failing unlock leaves the entry in the map.
\<close>

theorem releaseCodebaseLock_unlock_failure_keeps_entry:
  "''/repo'' \<in> set (map fst (heldCodebaseLocks
      (run unlock_fails_env [AcquireCodebaseLock ''/repo''] initial_state))) \<and>
   ''/repo'' \<in> set (map fst (heldCodebaseLocks
      (snd (releaseCodebaseLock unlock_fails_env ''/repo''
         (run unlock_fails_env [AcquireCodebaseLock ''/repo''] initial_state)))))"
  by (simp add: sample_defs acquireCodebaseLock_def releaseCodebaseLock_def outside_defs
      path_defs)

text \<open>
  C2, amended. For an identifier held with a non-empty lock path,
  \<^verbatim>\<open>releaseCodebaseLock\<close> returns normally, and afterwards the identifier is absent from
  the map exactly when the unlock call succeeded; when the unlock call fails the map is
  unchanged.
\<close>

theorem releaseCodebaseLock_removes_iff_unlocked:
  assumes "map_of (heldCodebaseLocks s) r = Some p" and "p \<noteq> []"
  shows "fst (releaseCodebaseLock env r s) = Return () \<and>
         (r \<in> set (map fst (heldCodebaseLocks (snd (releaseCodebaseLock env r s)))) \<longleftrightarrow>
            lockfile_unlock env (trace s) p = Throw) \<and>
         (lockfile_unlock env (trace s) p = Throw \<longrightarrow>
            heldCodebaseLocks (snd (releaseCodebaseLock env r s)) = heldCodebaseLocks s)"
proof (cases "lockfile_unlock env (trace s) p")
  case (Return u)
  with assms show ?thesis
    by (simp add: releaseCodebaseLock_def outside_defs delete_keys)
next
  case Throw
  from assms(1) have "r \<in> fst ` set (heldCodebaseLocks s)"
    by (metis map_of_SomeD fst_conv image_eqI)
  with Throw assms show ?thesis
    by (simp add: releaseCodebaseLock_def outside_defs)
qed


theorem releaseCodebaseLock_removes_iff_unlocked_witness:
  "map_of (heldCodebaseLocks (run free_env [AcquireCodebaseLock ''/repo''] initial_state)) ''/repo'' =
     Some (getCodebaseLockPath free_env ''/repo'') \<and>
   getCodebaseLockPath free_env ''/repo'' \<noteq> [] \<and>
   lockfile_unlock free_env (trace (run free_env [AcquireCodebaseLock ''/repo''] initial_state))
     (getCodebaseLockPath free_env ''/repo'') = Return () \<and>
   fst (releaseCodebaseLock free_env ''/repo''
          (run free_env [AcquireCodebaseLock ''/repo''] initial_state)) = Return () \<and>
   ''/repo'' \<notin> set (map fst (heldCodebaseLocks
      (snd (releaseCodebaseLock free_env ''/repo''
              (run free_env [AcquireCodebaseLock ''/repo''] initial_state)))))"
proof -
  have held: "map_of (heldCodebaseLocks (run free_env [AcquireCodebaseLock ''/repo''] initial_state))
                ''/repo'' = Some (getCodebaseLockPath free_env ''/repo'')"
    by (simp add: sample_defs acquireCodebaseLock_def outside_defs)
  have nonempty: "getCodebaseLockPath free_env ''/repo'' \<noteq> []"
    by (simp add: sample_defs path_defs)
  have ok: "lockfile_unlock free_env
              (trace (run free_env [AcquireCodebaseLock ''/repo''] initial_state))
              (getCodebaseLockPath free_env ''/repo'') = Return ()"
    by (simp add: sample_defs)
  from releaseCodebaseLock_removes_iff_unlocked [OF held nonempty, of free_env] held nonempty ok
  show ?thesis by simp
qed


text \<open>
  The hexadecimal form of a digest has 32 characters, all of them hexadecimal digits.
\<close>

lemma hex_digit_range: "hex_digit n \<in> set ''0123456789abcdef''"
proof -
  have "n mod 16 < length ''0123456789abcdef''" by simp
  then have "''0123456789abcdef'' ! (n mod 16) \<in> set ''0123456789abcdef''"
    by (rule nth_mem)
  then show ?thesis by (simp only: hex_digit_def)
qed

lemma digest_hex_length: "length (digest_hex w) = 32"
  by (simp add: digest_hex_def)

lemma digest_hex_chars: "set (digest_hex w) \<subseteq> set ''0123456789abcdef''"
  using hex_digit_range by (auto simp add: digest_hex_def simp del: set_simps list.set)


text \<open>
  C6. \<^verbatim>\<open>getCodebaseLockPath\<close> is a function of the identifier and of the pure
  parameters only (home directory, path functions, digest): it reads neither the module
  state nor the lock library, so two processes with the same home and working directory
  compute the same path. Identifiers that resolve to the same absolute path get the same
  lock path, and the lock path is the locks directory joined with a file name of exactly
  32 hexadecimal digits.
\<close>

theorem getCodebaseLockPath_deterministic:
  "(path_resolve env r1 = path_resolve env r2 \<longrightarrow>
      getCodebaseLockPath env r1 = getCodebaseLockPath env r2) \<and>
   (\<exists>hash. getCodebaseLockPath env r = path_join env (LOCKS_DIR env) hash \<and>
           length hash = 32 \<and> set hash \<subseteq> set ''0123456789abcdef'') \<and>
   (homedir env' = homedir env \<and> path_join env' = path_join env \<and>
    path_resolve env' = path_resolve env \<and> md5 env' = md5 env \<longrightarrow>
      getCodebaseLockPath env' r = getCodebaseLockPath env r)"
proof (intro conjI impI)
  assume "path_resolve env r1 = path_resolve env r2"
  then show "getCodebaseLockPath env r1 = getCodebaseLockPath env r2"
    by (simp add: getCodebaseLockPath_def)
next
  have "getCodebaseLockPath env r =
          path_join env (LOCKS_DIR env) (digest_hex (md5 env (path_resolve env r)))"
    by (simp add: getCodebaseLockPath_def)
  with digest_hex_length digest_hex_chars
  show "\<exists>hash. getCodebaseLockPath env r = path_join env (LOCKS_DIR env) hash \<and>
              length hash = 32 \<and> set hash \<subseteq> set ''0123456789abcdef''"
    by blast
next
  assume "homedir env' = homedir env \<and> path_join env' = path_join env \<and>
          path_resolve env' = path_resolve env \<and> md5 env' = md5 env"
  then show "getCodebaseLockPath env' r = getCodebaseLockPath env r"
    by (simp add: path_defs)
qed

theorem getCodebaseLockPath_deterministic_witness:
  "path_resolve free_env ''proj'' = path_resolve free_env ''/work/proj'' \<and>
   getCodebaseLockPath free_env ''proj'' = getCodebaseLockPath free_env ''/work/proj'' \<and>
   homedir contended_env = homedir free_env \<and> path_join contended_env = path_join free_env \<and>
   path_resolve contended_env = path_resolve free_env \<and> md5 contended_env = md5 free_env \<and>
   getCodebaseLockPath contended_env ''proj'' = getCodebaseLockPath free_env ''proj''"
proof -
  have same: "path_resolve free_env ''proj'' = path_resolve free_env ''/work/proj''"
    by (simp add: sample_defs)
  have params: "homedir contended_env = homedir free_env \<and>
                path_join contended_env = path_join free_env \<and>
                path_resolve contended_env = path_resolve free_env \<and>
                md5 contended_env = md5 free_env"
    by (simp add: sample_defs)
  from getCodebaseLockPath_deterministic
         [of free_env "''proj''" "''/work/proj''" "''proj''" contended_env] same params
  show ?thesis by blast
qed


text \<open>A map with distinct keys holds exactly one entry for a key it contains.\<close>

lemma one_entry:
  assumes "distinct (map fst al)" and "k \<in> fst ` set al"
  shows "length (filter (\<lambda>kv. fst kv = k) al) = 1"
  using assms
proof (induction al)
  case Nil
  then show ?case by simp
next
  case (Cons kv al)
  show ?case
  proof (cases "fst kv = k")
    case True
    with Cons.prems have "k \<notin> fst ` set al" by auto
    then have "filter (\<lambda>kv. fst kv = k) al = []"
      by (auto simp add: filter_empty_conv)
    with True show ?thesis by simp
  next
    case False
    with Cons show ?thesis by auto
  qed
qed


text \<open>
  C7. If the map already contains the identifier, \<^verbatim>\<open>acquireCodebaseLock\<close> returns
  true and changes nothing, so the lock library is not called. When the identifier is
  already held or the lock is there to be had (the attempt of the lock library
  succeeds), two calls in succession both return true, the second one changes nothing and
  makes no outside call, and the map then holds exactly one entry for the identifier.
  That another process holds the lock is the case of mutual exclusion, where the answer
  is false.
\<close>

theorem acquireCodebaseLock_idempotent:
  "(r \<in> set (map fst (heldCodebaseLocks s)) \<longrightarrow>
      acquireCodebaseLock env r s = (Return True, s)) \<and>
   (wf_state s \<and>
    (r \<in> set (map fst (heldCodebaseLocks s)) \<or>
     lockfile_lock env (trace s) (getCodebaseLockPath env r) = Return ()) \<longrightarrow>
      fst (acquireCodebaseLock env r s) = Return True \<and>
      acquireCodebaseLock env r (snd (acquireCodebaseLock env r s)) =
        (Return True, snd (acquireCodebaseLock env r s)) \<and>
      wf_state (snd (acquireCodebaseLock env r s)) \<and>
      length (filter (\<lambda>kv. fst kv = r)
                (heldCodebaseLocks (snd (acquireCodebaseLock env r s)))) = 1)"
proof (intro conjI impI)
  assume "r \<in> set (map fst (heldCodebaseLocks s))"
  then show "acquireCodebaseLock env r s = (Return True, s)"
    by (simp add: acquireCodebaseLock_def)
next
  assume a: "wf_state s \<and>
             (r \<in> set (map fst (heldCodebaseLocks s)) \<or>
              lockfile_lock env (trace s) (getCodebaseLockPath env r) = Return ())"
  show first: "fst (acquireCodebaseLock env r s) = Return True"
    using a by (auto simp add: acquireCodebaseLock_def outside_defs)
  have held: "r \<in> fst ` set (heldCodebaseLocks (snd (acquireCodebaseLock env r s)))"
    using a by (auto simp add: acquireCodebaseLock_def outside_defs dom_update)
  have wf: "wf_state (snd (acquireCodebaseLock env r s))"
    using a
    by (auto simp add: acquireCodebaseLock_def outside_defs wf_state_def distinct_update)
  from held show "acquireCodebaseLock env r (snd (acquireCodebaseLock env r s)) =
                    (Return True, snd (acquireCodebaseLock env r s))"
    by (simp add: acquireCodebaseLock_def)
  from wf show "wf_state (snd (acquireCodebaseLock env r s))" .
  from wf held show "length (filter (\<lambda>kv. fst kv = r)
                       (heldCodebaseLocks (snd (acquireCodebaseLock env r s)))) = 1"
    by (simp add: wf_state_def one_entry)
qed

theorem acquireCodebaseLock_idempotent_witness:
  "wf_state initial_state \<and>
   lockfile_lock free_env (trace initial_state) (getCodebaseLockPath free_env ''/repo'') =
     Return () \<and>
   fst (acquireCodebaseLock free_env ''/repo'' initial_state) = Return True \<and>
   ''/repo'' \<in> set (map fst (heldCodebaseLocks
      (snd (acquireCodebaseLock free_env ''/repo'' initial_state)))) \<and>
   fst (acquireCodebaseLock free_env ''/repo''
          (snd (acquireCodebaseLock free_env ''/repo'' initial_state))) = Return True \<and>
   trace (snd (acquireCodebaseLock free_env ''/repo''
          (snd (acquireCodebaseLock free_env ''/repo'' initial_state)))) =
     trace (snd (acquireCodebaseLock free_env ''/repo'' initial_state)) \<and>
   length (filter (\<lambda>kv. fst kv = ''/repo'')
             (heldCodebaseLocks (snd (acquireCodebaseLock free_env ''/repo'' initial_state)))) = 1"
proof -
  have wf: "wf_state initial_state"
    by (simp add: wf_state_def initial_state_def)
  have free: "lockfile_lock free_env (trace initial_state)
                (getCodebaseLockPath free_env ''/repo'') = Return ()"
    by (simp add: sample_defs)
  have held: "''/repo'' \<in> set (map fst (heldCodebaseLocks
                (snd (acquireCodebaseLock free_env ''/repo'' initial_state))))"
    by (simp add: sample_defs acquireCodebaseLock_def outside_defs)
  from acquireCodebaseLock_idempotent [of "''/repo''" initial_state free_env] wf free
  have "fst (acquireCodebaseLock free_env ''/repo'' initial_state) = Return True \<and>
        acquireCodebaseLock free_env ''/repo''
          (snd (acquireCodebaseLock free_env ''/repo'' initial_state)) =
        (Return True, snd (acquireCodebaseLock free_env ''/repo'' initial_state)) \<and>
        length (filter (\<lambda>kv. fst kv = ''/repo'')
          (heldCodebaseLocks (snd (acquireCodebaseLock free_env ''/repo'' initial_state)))) = 1"
    by blast
  with wf free held show ?thesis by simp
qed


text \<open>
  C8 fails on the code. \<^verbatim>\<open>lockfile.checkSync\<close> answers with a boolean, and
  \<^verbatim>\<open>isCodebaseLocked\<close> drops the answer: it returns true whenever the call does not
  throw. With a lock file on disk whose lock is stale, \<^verbatim>\<open>checkSync\<close> returns false
  and \<^verbatim>\<open>isCodebaseLocked\<close> returns true.
\<close>

theorem isCodebaseLocked_stale_reported_locked:
  "fs_existsSync stale_env (trace initial_state)
     (getCodebaseLockPath stale_env ''/repo'' @ ''.lock'') = True \<and>
   lockfile_checkSync stale_env
     (trace initial_state @
        [ExistsSync (getCodebaseLockPath stale_env ''/repo'' @ ''.lock'') True])
     (getCodebaseLockPath stale_env ''/repo'') = Return False \<and>
   fst (isCodebaseLocked stale_env ''/repo'' initial_state) = Return True"
  by (simp add: sample_defs isCodebaseLocked_def outside_defs)


text \<open>
  The rest of C8 holds: the function never throws; it returns true exactly when the lock
  file exists and the check does not throw; without a lock file it returns false after the
  single call to \<^verbatim>\<open>fs.existsSync\<close>; and it changes nothing but the trace
  (\<open>isCodebaseLocked_frame\<close>).
\<close>

lemma isCodebaseLocked_result:
  "fst (isCodebaseLocked env r s) =
     Return (fs_existsSync env (trace s) (getCodebaseLockPath env r @ ''.lock'') \<and>
             lockfile_checkSync env
               (trace s @ [ExistsSync (getCodebaseLockPath env r @ ''.lock'') True])
               (getCodebaseLockPath env r) \<noteq> Throw)"
  by (simp add: isCodebaseLocked_def outside_defs split: result.splits)

lemma isCodebaseLocked_no_file:
  assumes "\<not> fs_existsSync env (trace s) (getCodebaseLockPath env r @ ''.lock'')"
  shows "isCodebaseLocked env r s =
           (Return False,
            s\<lparr>trace := trace s @ [ExistsSync (getCodebaseLockPath env r @ ''.lock'') False]\<rparr>)"
  using assms by (simp add: isCodebaseLocked_def outside_defs)


text \<open>
  The invariant behind C10: every step keeps \<open>paths_inv\<close>.
\<close>

lemma set_update_subset: "set (AList.update k v al) \<subseteq> insert (k, v) (set al)"
  by (induction al) auto

lemma set_delete_subset: "set (AList.delete k al) \<subseteq> set al"
  by (auto simp add: AList.delete_eq)

lemma acquireCodebaseLock_paths_inv:
  assumes "paths_inv env s"
  shows "paths_inv env (snd (acquireCodebaseLock env p s))"
proof (cases "p \<in> set (map fst (heldCodebaseLocks s))")
  case True
  with assms show ?thesis by (simp add: acquireCodebaseLock_def)
next
  case False
  show ?thesis
  proof (cases "lockfile_lock env (trace s) (getCodebaseLockPath env p)")
    case (Return u)
    with False assms set_update_subset [of p "getCodebaseLockPath env p" "heldCodebaseLocks s"]
    show ?thesis
      by (auto simp add: acquireCodebaseLock_def outside_defs paths_inv_def list_all_iff)
  next
    case Throw
    with False assms show ?thesis
      by (simp add: acquireCodebaseLock_def outside_defs paths_inv_def)
  qed
qed

lemma releaseCodebaseLock_paths_inv:
  assumes "paths_inv env s"
  shows "paths_inv env (snd (releaseCodebaseLock env p s))"
  using assms set_delete_subset [of p "heldCodebaseLocks s"]
  by (auto simp add: releaseCodebaseLock_def outside_defs paths_inv_def list_all_iff
      split: option.splits result.splits)

lemma release_each_paths_inv:
  assumes "paths_inv env s"
  shows "paths_inv env (snd (release_each env ks s))"
  using assms
proof (induction ks arbitrary: s)
  case Nil
  then show ?case by simp
next
  case (Cons k ks)
  obtain s1 where r: "releaseCodebaseLock env k s = (Return (), s1)"
    using releaseCodebaseLock_returns [of env k s] by (cases "releaseCodebaseLock env k s") simp
  from releaseCodebaseLock_paths_inv [OF Cons.prems, of k] r have "paths_inv env s1"
    by simp
  from Cons.IH [OF this] r show ?case by simp
qed

lemma paths_inv_cong:
  assumes "paths_inv env s" and "heldCodebaseLocks s' = heldCodebaseLocks s"
  shows "paths_inv env s'"
  using assms by (simp add: paths_inv_def)

lemma acquireLock_held:
  "heldCodebaseLocks (snd (acquireLock env s)) = heldCodebaseLocks s"
  by (cases "lockfile_lock env (trace s) (LOCK_FILE env)")
     (simp_all add: acquireLock_def outside_defs split: option.splits)

lemma releaseLock_held:
  "heldCodebaseLocks (snd (releaseLock env s)) = heldCodebaseLocks s"
  by (simp add: releaseLock_def outside_defs split: result.splits)

lemma exec_paths_inv:
  assumes "paths_inv env s"
  shows "paths_inv env (exec env x s)"
proof (cases x)
  case AcquireLock
  with assms acquireLock_held [of env s] show ?thesis by (simp add: paths_inv_cong)
next
  case ReleaseLock
  with assms releaseLock_held [of env s] show ?thesis by (simp add: paths_inv_cong)
next
  case (TimerFires t)
  show ?thesis
  proof (cases "find (\<lambda>x. tid x = t) (timers s)")
    case None
    with TimerFires assms show ?thesis by simp
  next
    case (Some x)
    with TimerFires assms acquireLock_held [of env s] show ?thesis
      by (cases "callback x") (simp add: paths_inv_cong)
  qed
next
  case (AcquireCodebaseLock p)
  with assms show ?thesis by (simp add: acquireCodebaseLock_paths_inv)
next
  case (ReleaseCodebaseLock p)
  with assms show ?thesis by (simp add: releaseCodebaseLock_paths_inv)
next
  case ReleaseAllCodebaseLocks
  with assms show ?thesis by (simp add: releaseAllCodebaseLocks_def release_each_paths_inv)
next
  case (IsCodebaseLocked p)
  with assms isCodebaseLocked_frame [of env p s] show ?thesis by (simp add: paths_inv_cong)
qed

lemma run_paths_inv:
  assumes "paths_inv env s"
  shows "paths_inv env (run env ops s)"
  using assms unfolding run_def
  by (induction ops arbitrary: s) (simp_all add: exec_paths_inv)


text \<open>
  C10. In every state reached from the initial state by any sequence of operations of
  the module (the three operations on codebase locks among them), each entry of
  \<^verbatim>\<open>heldCodebaseLocks\<close> stores the lock path that \<^verbatim>\<open>getCodebaseLockPath\<close> computes
  from the entry's key.
\<close>

theorem held_paths_come_from_hasher:
  "\<forall>(codebasePath, lockPath) \<in> set (heldCodebaseLocks (run env ops initial_state)).
     lockPath = getCodebaseLockPath env codebasePath"
proof -
  have "paths_inv env initial_state"
    by (simp add: paths_inv_def initial_state_def)
  then have "paths_inv env (run env ops initial_state)"
    by (rule run_paths_inv)
  then show ?thesis
    by (simp add: paths_inv_def list_all_iff)
qed

theorem held_paths_come_from_hasher_witness:
  "(''lib'', getCodebaseLockPath free_env ''lib'') \<in>
     set (heldCodebaseLocks
            (run free_env
               [AcquireCodebaseLock ''/repo'', AcquireCodebaseLock ''lib'',
                ReleaseCodebaseLock ''/repo''] initial_state)) \<and>
   snd (hd (heldCodebaseLocks
              (run free_env
                 [AcquireCodebaseLock ''/repo'', AcquireCodebaseLock ''lib'',
                  ReleaseCodebaseLock ''/repo''] initial_state))) =
     getCodebaseLockPath free_env
       (fst (hd (heldCodebaseLocks
                   (run free_env
                      [AcquireCodebaseLock ''/repo'', AcquireCodebaseLock ''lib'',
                       ReleaseCodebaseLock ''/repo''] initial_state))))"
proof -
  let ?held = "heldCodebaseLocks
                 (run free_env
                    [AcquireCodebaseLock ''/repo'', AcquireCodebaseLock ''lib'',
                     ReleaseCodebaseLock ''/repo''] initial_state)"
  have mem: "(''lib'', getCodebaseLockPath free_env ''lib'') \<in> set ?held"
    by (simp add: sample_defs acquireCodebaseLock_def releaseCodebaseLock_def outside_defs
        path_defs)
  then have "?held \<noteq> []" by auto
  then have first: "hd ?held \<in> set ?held" by simp
  from held_paths_come_from_hasher
         [of free_env "[AcquireCodebaseLock ''/repo'', AcquireCodebaseLock ''lib'',
                        ReleaseCodebaseLock ''/repo'']"] first
  have "snd (hd ?held) = getCodebaseLockPath free_env (fst (hd ?held))"
    by (auto simp add: case_prod_beta)
  with mem show ?thesis by simp
qed

subsection \<open>Graceful shutdown\<close>

text \<open>
  The loop of \<^verbatim>\<open>releaseAllCodebaseLocks\<close> makes, for each key of the snapshot in
  order, the unlock call of \<^verbatim>\<open>releaseCodebaseLock\<close>; a failed unlock does not stop it.
\<close>

lemma unlocked_paths_append:
  "unlocked_paths (a @ b) = unlocked_paths a @ unlocked_paths b"
  by (simp add: unlocked_paths_def)

lemma releaseCodebaseLock_step:
  "\<exists>r1. trace (snd (releaseCodebaseLock env k s)) = trace s @ r1 \<and>
        unlocked_paths r1 =
          unlock_attempt (heldCodebaseLocks s) k \<and>
        ProcessExit \<notin> set r1"
proof (cases "map_of (heldCodebaseLocks s) k")
  case None
  then show ?thesis by (simp add: releaseCodebaseLock_def unlocked_paths_def unlock_attempt_def)
next
  case (Some p)
  show ?thesis
  proof (cases "p = []")
    case True
    with Some show ?thesis
      by (simp add: releaseCodebaseLock_def unlocked_paths_def unlock_attempt_def)
  next
    case False
    with Some show ?thesis
      by (cases "lockfile_unlock env (trace s) p")
         (simp_all add: releaseCodebaseLock_def outside_defs unlocked_paths_def
            unlock_attempt_def)
  qed
qed

lemma releaseCodebaseLock_other_keys:
  assumes "k' \<noteq> k"
  shows "map_of (heldCodebaseLocks (snd (releaseCodebaseLock env k s))) k' =
         map_of (heldCodebaseLocks s) k'"
  using assms
  by (simp add: releaseCodebaseLock_def outside_defs split: option.splits result.splits)

lemma release_each_trace:
  assumes "distinct ks"
  shows "\<exists>ra. trace (snd (release_each env ks s)) = trace s @ ra \<and>
              unlocked_paths ra =
                concat (map (unlock_attempt (heldCodebaseLocks s)) ks) \<and>
              ProcessExit \<notin> set ra"
  using assms
proof (induction ks arbitrary: s)
  case Nil
  show ?case by (simp add: unlocked_paths_def)
next
  case (Cons k ks)
  obtain s1 where r: "releaseCodebaseLock env k s = (Return (), s1)"
    using releaseCodebaseLock_returns [of env k s] by (cases "releaseCodebaseLock env k s") simp
  from releaseCodebaseLock_step [of env k s] r obtain r1 where
    r1: "trace s1 = trace s @ r1"
        "unlocked_paths r1 =
           unlock_attempt (heldCodebaseLocks s) k"
        "ProcessExit \<notin> set r1"
    by auto
  from Cons.prems have dist: "distinct ks" and fresh: "k \<notin> set ks"
    by simp_all
  from Cons.IH [OF dist, of s1] obtain ra where
    ra: "trace (snd (release_each env ks s1)) = trace s1 @ ra"
        "unlocked_paths ra =
           concat (map (unlock_attempt (heldCodebaseLocks s1)) ks)"
        "ProcessExit \<notin> set ra"
    by auto
  have same: "map_of (heldCodebaseLocks s1) k' = map_of (heldCodebaseLocks s) k'"
    if "k' \<in> set ks" for k'
  proof -
    from that fresh have "k' \<noteq> k" by auto
    from releaseCodebaseLock_other_keys [OF this, of env s] r show ?thesis by simp
  qed
  have rest: "map (unlock_attempt (heldCodebaseLocks s1)) ks =
              map (unlock_attempt (heldCodebaseLocks s)) ks"
    by (rule map_cong) (simp_all add: same unlock_attempt_def)
  have "trace (snd (release_each env (k # ks) s)) = trace s @ (r1 @ ra)"
    using r r1(1) ra(1) by simp
  moreover have "unlocked_paths (r1 @ ra) =
      concat (map (unlock_attempt (heldCodebaseLocks s)) (k # ks))"
    using r1(2) ra(2) rest by (simp add: unlocked_paths_append)
  moreover have "ProcessExit \<notin> set (r1 @ ra)"
    using r1(3) ra(3) by simp
  ultimately show ?case by blast
qed

lemma release_each_returns: "fst (release_each env ks s) = Return ()"
proof (induction ks arbitrary: s)
  case Nil
  show ?case by simp
next
  case (Cons k ks)
  obtain s1 where r: "releaseCodebaseLock env k s = (Return (), s1)"
    using releaseCodebaseLock_returns [of env k s] by (cases "releaseCodebaseLock env k s") simp
  with Cons.IH [of s1] show ?case by simp
qed

lemma lookup_all_keys:
  assumes "distinct (map fst al)"
  shows "concat (map (unlock_attempt al) (map fst al)) = filter (\<lambda>p. p \<noteq> []) (map snd al)"
  using assms
proof (induction al)
  case Nil
  show ?case by simp
next
  case (Cons kv al)
  obtain k p where kv: "kv = (k, p)" by (cases kv)
  from Cons.prems kv have fresh: "k \<notin> fst ` set al" and dist: "distinct (map fst al)"
    by simp_all
  have tail: "map (unlock_attempt (kv # al)) (map fst al) = map (unlock_attempt al) (map fst al)"
    using fresh kv by (intro map_cong) (auto simp add: unlock_attempt_def)
  have head: "unlock_attempt (kv # al) k = (if p = [] then [] else [p])"
    using kv by (simp add: unlock_attempt_def)
  have "concat (map (unlock_attempt (kv # al)) (map fst (kv # al))) =
        unlock_attempt (kv # al) k @ concat (map (unlock_attempt (kv # al)) (map fst al))"
    using kv by simp
  also have "\<dots> = (if p = [] then [] else [p]) @ filter (\<lambda>p. p \<noteq> []) (map snd al)"
    by (simp only: head tail Cons.IH [OF dist])
  also have "\<dots> = filter (\<lambda>p. p \<noteq> []) (map snd (kv # al))"
    using kv by simp
  finally show ?case .
qed

lemma releaseLock_returns: "fst (releaseLock env s) = Return ()"
  by (simp add: releaseLock_def outside_defs split: result.splits)


text \<open>
  The listeners for the two signals return normally. The unlock calls they make before
  \<^verbatim>\<open>process.exit\<close> are, in this order: one for every held codebase lock (in
  insertion order), then, if the process is leader, the one for the leader lock file.
  \<^verbatim>\<open>process.exit\<close> comes after all of them, and after it only what the listener for
  the exit event still does, which is at most the start of one more unlock.
\<close>

lemma on_exit_starts_at_most_one_unlock:
  "isLeader (on_exit s) = isLeader s \<and>
   heldCodebaseLocks (on_exit s) = heldCodebaseLocks s \<and>
   (\<exists>tail. trace (on_exit s) = trace s @ tail \<and> length tail \<le> 1 \<and>
           Unlock (LOCK_FILE env) r \<notin> set tail \<and> ProcessExit \<notin> set tail)"
  by (auto simp add: exit_defs emit_def split: list.splits option.splits)

lemma signal_listeners_release_codebase_locks_first:
  assumes "wf_state s"
  shows "fst (on_SIGINT env s) = Return () \<and>
         on_SIGTERM env s = on_SIGINT env s \<and>
         (\<exists>body tail.
            added s (snd (on_SIGINT env s)) = body @ [ProcessExit] @ tail \<and>
            unlocked_paths body =
              filter (\<lambda>p. p \<noteq> []) (map snd (heldCodebaseLocks s)) @
              (if isLeader s then [LOCK_FILE env] else []) \<and>
            ProcessExit \<notin> set body \<and> length tail \<le> 1)"
proof -
  obtain s1 where all: "releaseAllCodebaseLocks env s = (Return (), s1)"
    using release_each_returns [of env "map fst (heldCodebaseLocks s)" s]
    by (cases "releaseAllCodebaseLocks env s") (simp add: releaseAllCodebaseLocks_def)
  from assms have "distinct (map fst (heldCodebaseLocks s))"
    by (simp add: wf_state_def)
  from release_each_trace [OF this, of env s] all lookup_all_keys [OF this]
  obtain ra where
    ra: "trace s1 = trace s @ ra"
        "unlocked_paths ra = filter (\<lambda>p. p \<noteq> []) (map snd (heldCodebaseLocks s))"
        "ProcessExit \<notin> set ra"
    by (auto simp add: releaseAllCodebaseLocks_def)
  have leader: "isLeader s1 = isLeader s"
    using release_each_frame [of env "map fst (heldCodebaseLocks s)" s] all
    by (simp add: releaseAllCodebaseLocks_def)
  obtain s2 where rel: "releaseLock env s1 = (Return (), s2)"
    using releaseLock_returns [of env s1] by (cases "releaseLock env s1") simp
  have "\<exists>rl. trace s2 = trace s1 @ rl \<and>
             unlocked_paths rl = (if isLeader s then [LOCK_FILE env] else []) \<and>
             ProcessExit \<notin> set rl"
    using rel leader
    by (cases "lockfile_unlock env (trace s1) (LOCK_FILE env)")
       (auto simp add: releaseLock_def outside_defs unlocked_paths_def)
  then obtain rl where
    rl: "trace s2 = trace s1 @ rl"
        "unlocked_paths rl = (if isLeader s then [LOCK_FILE env] else [])"
        "ProcessExit \<notin> set rl"
    by blast
  from on_exit_starts_at_most_one_unlock [of "emit ProcessExit s2"]
  obtain tail where
    tail: "trace (process_exit s2) = trace (emit ProcessExit s2) @ tail" "length tail \<le> 1"
    by (auto simp add: process_exit_def)
  have sigint: "on_SIGINT env s = (Return (), process_exit s2)"
    using all rel by (simp add: on_SIGINT_def)
  have sigterm: "on_SIGTERM env s = (Return (), process_exit s2)"
    using all rel by (simp add: on_SIGTERM_def)
  have "added s (process_exit s2) = (ra @ rl) @ [ProcessExit] @ tail"
    using ra(1) rl(1) tail(1) by (simp add: added_def emit_def)
  moreover have "unlocked_paths (ra @ rl) =
      filter (\<lambda>p. p \<noteq> []) (map snd (heldCodebaseLocks s)) @
      (if isLeader s then [LOCK_FILE env] else [])"
    using ra(2) rl(2) by (simp add: unlocked_paths_append)
  moreover have "ProcessExit \<notin> set (ra @ rl)"
    using ra(3) rl(3) by simp
  ultimately have "\<exists>body tail.
      added s (process_exit s2) = body @ [ProcessExit] @ tail \<and>
      unlocked_paths body =
        filter (\<lambda>p. p \<noteq> []) (map snd (heldCodebaseLocks s)) @
        (if isLeader s then [LOCK_FILE env] else []) \<and>
      ProcessExit \<notin> set body \<and> length tail \<le> 1"
    using tail(2) by blast
  with sigint sigterm show ?thesis by simp
qed

text \<open>
  C9 fails on the code for the exit event. With the process leader and two codebase
  locks held, the listener starts the unlock of the first codebase lock and nothing else:
  the second lock is not touched, \<^verbatim>\<open>releaseLock\<close> is not called, the leader flag is
  still true and both entries are still in the map. The two signal listeners do what C9
  says (\<open>signal_listeners_release_codebase_locks_first\<close>).
\<close>

theorem exit_listener_stops_at_first_await:
  "isLeader leader_with_two_locks \<and>
   map fst (heldCodebaseLocks leader_with_two_locks) = [''/repo'', ''/lib''] \<and>
   added leader_with_two_locks (on_exit leader_with_two_locks) =
     [UnlockStarted (getCodebaseLockPath free_env ''/repo'')] \<and>
   isLeader (on_exit leader_with_two_locks) \<and>
   map fst (heldCodebaseLocks (on_exit leader_with_two_locks)) = [''/repo'', ''/lib'']"
  by (simp add: leader_with_two_locks_def sample_defs acquireLock_def acquireCodebaseLock_def
      outside_defs exit_defs added_def path_defs)

end
